theory Spec2Isabelle
  imports Main "HOL-Library.Word" "HOL-Library.Multiset"
begin

section \<open>The sparse array set of \<^verbatim>\<open>lib/data_structure/sparse_array_set.h\<close>\<close>

text \<open>
  The class keeps a \<^verbatim>\<open>std::vector<int> elements\<close> and two \<^verbatim>\<open>int\<close> cursors
  \<^verbatim>\<open>first\<close> and \<^verbatim>\<open>last\<close>. The members of the set are the slots
  \<^verbatim>\<open>elements[first..last]\<close>. The field \<^verbatim>\<open>last\<close> is called \<open>last_idx\<close> here,
  since \<open>last\<close> is the list function of HOL; \<^verbatim>\<open>insert\<close>, \<^verbatim>\<open>remove\<close>,
  \<^verbatim>\<open>size\<close> and \<^verbatim>\<open>empty\<close> carry the suffix \<open>_sas\<close> for the same reason.

  Stored values are integers that are only copied and compared. The cursors and the
  loop index of \<^verbatim>\<open>remove\<close> are 32-bit \<^verbatim>\<open>int\<close>s: they are integers here, and each
  \<^verbatim>\<open>++\<close> on them is guarded by \<open>int_max\<close>. A parameter of type \<^verbatim>\<open>unsigned int\<close> is
  a \<open>32 word\<close>, and the conversions to \<^verbatim>\<open>unsigned int\<close> (of the result of
  \<^verbatim>\<open>size()\<close>, of \<^verbatim>\<open>adj.size()\<close>) are written out.

  The C++ code checks nothing. An access outside the vector and a \<^verbatim>\<open>++\<close> on an
  \<^verbatim>\<open>int\<close> that holds \<^verbatim>\<open>INT_MAX\<close> are undefined behaviour there; here they are the
  error values \<open>OutOfBounds\<close> and \<open>IntOverflow\<close>, and every operation that can reach
  one of them returns a sum.
\<close>

datatype error = OutOfBounds | IntOverflow

text \<open>\<^verbatim>\<open>INT_MAX\<close> of the 32-bit \<^verbatim>\<open>int\<close>.\<close>

definition int_max :: int where
  "int_max = 2 ^ 31 - 1"

record sparse_array_set =
  elements :: "int list"
  first :: int
  last_idx :: int

subsection \<open>Vector primitives\<close>

text \<open>\<^verbatim>\<open>v[i]\<close> read, with the index as the C++ \<^verbatim>\<open>int\<close> it is.\<close>

definition vec_get :: "int list \<Rightarrow> int \<Rightarrow> error + int" where
  "vec_get v i = (if 0 \<le> i \<and> i < int (length v) then Inr (v ! nat i) else Inl OutOfBounds)"

text \<open>\<^verbatim>\<open>v[i] = x\<close>.\<close>

definition vec_set :: "int list \<Rightarrow> int \<Rightarrow> int \<Rightarrow> error + int list" where
  "vec_set v i x = (if 0 \<le> i \<and> i < int (length v) then Inr (v[nat i := x]) else Inl OutOfBounds)"

text \<open>\<^verbatim>\<open>v.resize(n, x)\<close>: cut to \<open>n\<close> slots, or pad with \<open>x\<close> up to \<open>n\<close> slots.\<close>

definition vec_resize :: "int list \<Rightarrow> nat \<Rightarrow> int \<Rightarrow> int list" where
  "vec_resize v n x = take n v @ replicate (n - length v) x"

subsection \<open>Construction and sizing\<close>

text \<open>\<^verbatim>\<open>sparse_array_set(unsigned int size) : elements(size, -1), first(0), last(-1)\<close>\<close>

definition construct :: "32 word \<Rightarrow> sparse_array_set" where
  "construct sz = \<lparr>elements = replicate (unat sz) (- 1), first = 0, last_idx = - 1\<rparr>"

text \<open>\<^verbatim>\<open>sparse_array_set() : elements(), first(0), last(-1)\<close>\<close>

definition construct_default :: sparse_array_set where
  "construct_default = \<lparr>elements = [], first = 0, last_idx = - 1\<rparr>"

definition resize :: "sparse_array_set \<Rightarrow> 32 word \<Rightarrow> sparse_array_set" where
  "resize s sz = s\<lparr>elements := vec_resize (elements s) (unat sz) (- 1)\<rparr>"

definition init :: "sparse_array_set \<Rightarrow> 32 word \<Rightarrow> sparse_array_set" where
  "init s sz = s\<lparr>elements := vec_resize (elements s) (unat sz) (- 1), first := 0, last_idx := - 1\<rparr>"

subsection \<open>Queries\<close>

text \<open>
  \<^verbatim>\<open>for (int value : *this) if (value == x) return true; return false;\<close>
  The range-based loop runs an iterator from \<^verbatim>\<open>elements.begin() + first\<close> until it
  equals \<^verbatim>\<open>elements.begin() + last + 1\<close>; \<open>i\<close> is the position of the iterator and
  \<open>e\<close> the position of the end iterator. Both are iterator arithmetic: no \<^verbatim>\<open>int\<close>
  is incremented.
\<close>

function contains_loop :: "int list \<Rightarrow> int \<Rightarrow> int \<Rightarrow> int \<Rightarrow> error + bool" where
  "contains_loop v i e x =
     (if i = e then Inr False
      else if i < 0 \<or> int (length v) \<le> i then Inl OutOfBounds
      else if v ! nat i = x then Inr True
      else contains_loop v (i + 1) e x)"
  by pat_completeness auto
termination
  by (relation "measure (\<lambda>(v, i, e, x). nat (int (length v) - i))") auto

declare contains_loop.simps [simp del]

definition contains :: "sparse_array_set \<Rightarrow> int \<Rightarrow> error + bool" where
  "contains s x = contains_loop (elements s) (first s) (last_idx s + 1) x"

text \<open>
  \<^verbatim>\<open>unsigned int size() const { return last - first + 1; }\<close>
  The 32 bits of the \<^verbatim>\<open>int\<close> result, read as \<^verbatim>\<open>unsigned int\<close>.
\<close>

definition size_sas :: "sparse_array_set \<Rightarrow> nat" where
  "size_sas s = nat ((last_idx s - first s + 1) mod 2 ^ 32)"

definition empty_sas :: "sparse_array_set \<Rightarrow> bool" where
  "empty_sas s = (last_idx s < first s)"

text \<open>\<^verbatim>\<open>int at(unsigned int index) { return elements[index]; }\<close>\<close>

definition at :: "sparse_array_set \<Rightarrow> 32 word \<Rightarrow> error + int" where
  "at s index = vec_get (elements s) (int (unat index))"

subsection \<open>Mutation\<close>

text \<open>
  \<^verbatim>\<open>if (contains(x)) return; last++; elements[last] = x;\<close>
  The \<^verbatim>\<open>last++\<close> overflows when \<^verbatim>\<open>last\<close> holds \<^verbatim>\<open>INT_MAX\<close>.
\<close>

definition insert_sas :: "sparse_array_set \<Rightarrow> int \<Rightarrow> error + sparse_array_set" where
  "insert_sas s x =
     (case contains s x of
        Inl err \<Rightarrow> Inl err
      | Inr True \<Rightarrow> Inr s
      | Inr False \<Rightarrow>
          if last_idx s < int_max then
            (case vec_set (elements s) (last_idx s + 1) x of
               Inl err \<Rightarrow> Inl err
             | Inr v \<Rightarrow> Inr (s\<lparr>elements := v, last_idx := last_idx s + 1\<rparr>))
          else Inl IntOverflow)"

text \<open>
  \<^verbatim>\<open>
  for (int index = first; index <= last; index++) {
      if (elements[index] == x) {
          elements[index] = elements[last];
          elements[last] = x;
          last--;
          return;
      }
  }
  \<close>
  The \<^verbatim>\<open>index++\<close> overflows when \<^verbatim>\<open>index\<close> holds \<^verbatim>\<open>INT_MAX\<close>, which it does at the
  end of a range without \<open>x\<close> whose \<^verbatim>\<open>last\<close> is \<^verbatim>\<open>INT_MAX\<close>. The \<^verbatim>\<open>last--\<close> comes
  after the read of \<^verbatim>\<open>elements[index]\<close> with \<^verbatim>\<open>index <= last\<close>, where \<^verbatim>\<open>last\<close> is
  not negative.
\<close>

function remove_loop :: "sparse_array_set \<Rightarrow> int \<Rightarrow> int \<Rightarrow> error + sparse_array_set" where
  "remove_loop s index x =
     (if index \<le> last_idx s then
        (case vec_get (elements s) index of
           Inl err \<Rightarrow> Inl err
         | Inr y \<Rightarrow>
             if y = x then
               (case vec_get (elements s) (last_idx s) of
                  Inl err \<Rightarrow> Inl err
                | Inr z \<Rightarrow>
                    (case vec_set (elements s) index z of
                       Inl err \<Rightarrow> Inl err
                     | Inr v \<Rightarrow>
                         (case vec_set v (last_idx s) x of
                            Inl err \<Rightarrow> Inl err
                          | Inr v' \<Rightarrow> Inr (s\<lparr>elements := v', last_idx := last_idx s - 1\<rparr>))))
             else if index < int_max then remove_loop s (index + 1) x
             else Inl IntOverflow)
      else Inr s)"
  by pat_completeness auto
termination
  by (relation "measure (\<lambda>(s, index, x). nat (last_idx s + 1 - index))") auto

declare remove_loop.simps [simp del]

definition remove_sas :: "sparse_array_set \<Rightarrow> int \<Rightarrow> error + sparse_array_set" where
  "remove_sas s x = remove_loop s (first s) x"

text \<open>
  \<^verbatim>\<open>void move_to(int x, sparse_array_set &other) { remove(x); other.insert(x); }\<close>
  on two different objects: the result is the pair of this set and the other set.
  (On one and the same object the call is \<open>remove_sas\<close> followed by \<open>insert_sas\<close>.)
\<close>

definition move_to ::
  "sparse_array_set \<Rightarrow> int \<Rightarrow> sparse_array_set \<Rightarrow> error + sparse_array_set \<times> sparse_array_set" where
  "move_to s x other =
     (case remove_sas s x of
        Inl err \<Rightarrow> Inl err
      | Inr s' \<Rightarrow>
          (case insert_sas other x of
             Inl err \<Rightarrow> Inl err
           | Inr other' \<Rightarrow> Inr (s', other')))"

definition clear :: "sparse_array_set \<Rightarrow> sparse_array_set" where
  "clear s = s\<lparr>first := 0, last_idx := - 1\<rparr>"

text \<open>The loop \<^verbatim>\<open>for (int neighbor : ...) insert(neighbor);\<close> of \<^verbatim>\<open>init_from_adj\<close>.\<close>

fun insert_all :: "sparse_array_set \<Rightarrow> int list \<Rightarrow> error + sparse_array_set" where
  "insert_all s [] = Inr s"
| "insert_all s (x # xs) =
     (case insert_sas s x of Inl err \<Rightarrow> Inl err | Inr s' \<Rightarrow> insert_all s' xs)"

text \<open>
  \<^verbatim>\<open>resize(adj.size()); for (int neighbor : adj[node]) insert(neighbor);\<close>
  The \<^verbatim>\<open>size_t\<close> of \<^verbatim>\<open>adj.size()\<close> becomes the \<^verbatim>\<open>unsigned int\<close> parameter of
  \<^verbatim>\<open>resize\<close>.
\<close>

definition init_from_adj :: "sparse_array_set \<Rightarrow> int list list \<Rightarrow> int \<Rightarrow> error + sparse_array_set" where
  "init_from_adj s adj node =
     (let s' = resize s (word_of_nat (length adj))
      in if 0 \<le> node \<and> node < int (length adj) then insert_all s' (adj ! nat node)
         else Inl OutOfBounds)"

subsection \<open>The active range and the invariant\<close>

text \<open>The values an iteration from \<^verbatim>\<open>begin()\<close> to \<^verbatim>\<open>end()\<close> visits, in order.\<close>

definition active :: "sparse_array_set \<Rightarrow> int list" where
  "active s = drop (nat (first s)) (take (nat (last_idx s + 1)) (elements s))"

text \<open>
  The cursors delimit a range inside the vector, \<^verbatim>\<open>last\<close> holds a value of its type
  \<^verbatim>\<open>int\<close>, the vector has a length that \<^verbatim>\<open>unsigned int\<close> can hold, and the active
  values are pairwise distinct (I2).
\<close>

definition invar :: "sparse_array_set \<Rightarrow> bool" where
  "invar s \<longleftrightarrow>
     0 \<le> first s \<and> first s \<le> last_idx s + 1 \<and> last_idx s < int (length (elements s)) \<and>
     last_idx s \<le> int_max \<and> length (elements s) < 2 ^ 32 \<and> distinct (active s)"

subsection \<open>Reachable states\<close>

text \<open>
  The states a client can bring a set into with the two constructors, \<^verbatim>\<open>init\<close>,
  \<^verbatim>\<open>insert\<close>, \<^verbatim>\<open>remove\<close>, \<^verbatim>\<open>clear\<close> and \<^verbatim>\<open>move_to\<close> (as the set that gives
  and as the set that receives), every call having stayed inside the vector and
  inside the range of \<^verbatim>\<open>int\<close>.
\<close>

inductive reachable :: "sparse_array_set \<Rightarrow> bool" where
  r_construct: "reachable (construct sz)"
| r_default: "reachable construct_default"
| r_init: "reachable s \<Longrightarrow> reachable (init s sz)"
| r_insert: "reachable s \<Longrightarrow> insert_sas s x = Inr s' \<Longrightarrow> reachable s'"
| r_remove: "reachable s \<Longrightarrow> remove_sas s x = Inr s' \<Longrightarrow> reachable s'"
| r_clear: "reachable s \<Longrightarrow> reachable (clear s)"
| r_move_from:
    "reachable s \<Longrightarrow> reachable other \<Longrightarrow> move_to s x other = Inr (s', other') \<Longrightarrow> reachable s'"
| r_move_into:
    "reachable s \<Longrightarrow> reachable other \<Longrightarrow> move_to s x other = Inr (s', other') \<Longrightarrow> reachable other'"

section \<open>The two loops\<close>

lemma contains_loop_in_range:
  "0 \<le> i \<Longrightarrow> i \<le> e \<Longrightarrow> e \<le> int (length v) \<Longrightarrow>
   contains_loop v i e x = Inr (x \<in> set (drop (nat i) (take (nat e) v)))"
proof (induction v i e x rule: contains_loop.induct)
  case (1 v i e x)
  show ?case
  proof (cases "i = e")
    case True
    then show ?thesis by (subst contains_loop.simps) simp
  next
    case False
    with "1.prems" have lt: "i < e" "nat i < length (take (nat e) v)" by auto
    have split: "drop (nat i) (take (nat e) v) = v ! nat i # drop (nat (i + 1)) (take (nat e) v)"
      using lt "1.prems" Cons_nth_drop_Suc [of "nat i" "take (nat e) v"]
      by (simp add: nat_add_distrib)
    show ?thesis
    proof (cases "v ! nat i = x")
      case True
      then show ?thesis using lt "1.prems" False split
        by (simp add: contains_loop.simps [of v i e x])
    next
      case neq: False
      have "contains_loop v (i + 1) e x = Inr (x \<in> set (drop (nat (i + 1)) (take (nat e) v)))"
        using "1.IH" False neq lt "1.prems" by simp
      then show ?thesis using lt "1.prems" False neq split
        by (simp add: contains_loop.simps [of v i e x])
    qed
  qed
qed

lemma contains_loop_FalseD:
  "contains_loop v i e x = Inr False \<Longrightarrow>
   i \<le> e \<and> (i < e \<longrightarrow> 0 \<le> i \<and> e \<le> int (length v)) \<and>
   (\<forall>k. i \<le> k \<and> k < e \<longrightarrow> v ! nat k \<noteq> x)"
proof (induction v i e x rule: contains_loop.induct)
  case (1 v i e x)
  show ?case
  proof (cases "i = e")
    case True
    then show ?thesis by simp
  next
    case False
    from "1.prems" False have inb: "0 \<le> i" "i < int (length v)" and neq: "v ! nat i \<noteq> x"
      and rec: "contains_loop v (i + 1) e x = Inr False"
      by (auto simp: contains_loop.simps [of v i e x] split: if_splits)
    from "1.IH" [OF False _ neq rec] inb
    have ih: "i + 1 \<le> e" "i + 1 < e \<longrightarrow> e \<le> int (length v)"
      "\<forall>k. i + 1 \<le> k \<and> k < e \<longrightarrow> v ! nat k \<noteq> x" by auto
    have "\<forall>k. i \<le> k \<and> k < e \<longrightarrow> v ! nat k \<noteq> x"
    proof (intro allI impI)
      fix k assume "i \<le> k \<and> k < e"
      then consider "k = i" | "i + 1 \<le> k \<and> k < e" by linarith
      then show "v ! nat k \<noteq> x" using neq ih(3) by cases auto
    qed
    moreover have "e \<le> int (length v)" using ih(1,2) inb by linarith
    ultimately show ?thesis using ih(1) inb by auto
  qed
qed


lemma remove_loop_absent_cases:
  "contains_loop (elements s) i (last_idx s + 1) x = Inr False \<Longrightarrow>
   remove_loop s i x = Inr s \<or> remove_loop s i x = Inl IntOverflow"
proof (induction s i x rule: remove_loop.induct)
  case (1 s index x)
  show ?case
  proof (cases "index \<le> last_idx s")
    case False
    then show ?thesis by (simp add: remove_loop.simps [of s index x])
  next
    case True
    then have ne: "index \<noteq> last_idx s + 1" by simp
    from "1.prems" ne have inb: "0 \<le> index" "index < int (length (elements s))"
      and neq: "elements s ! nat index \<noteq> x"
      and rec: "contains_loop (elements s) (index + 1) (last_idx s + 1) x = Inr False"
      by (auto simp: contains_loop.simps [of "elements s" index "last_idx s + 1" x] split: if_splits)
    have get: "vec_get (elements s) index = Inr (elements s ! nat index)"
      using inb by (simp add: vec_get_def)
    show ?thesis
    proof (cases "index < int_max")
      case lt: True
      have "remove_loop s (index + 1) x = Inr s \<or> remove_loop s (index + 1) x = Inl IntOverflow"
        using "1.IH" [OF True get neq lt rec] .
      then show ?thesis using True get neq lt
        by (simp add: remove_loop.simps [of s index x])
    next
      case False
      then show ?thesis using True get neq
        by (simp add: remove_loop.simps [of s index x])
    qed
  qed
qed

text \<open>The guard of \<^verbatim>\<open>index++\<close> is reached: a range without \<open>x\<close> that ends at \<^verbatim>\<open>INT_MAX\<close>.\<close>

lemma remove_loop_overflow:
  "contains_loop (elements s) i (last_idx s + 1) x = Inr False \<Longrightarrow> i \<le> last_idx s \<Longrightarrow>
   last_idx s = int_max \<Longrightarrow> remove_loop s i x = Inl IntOverflow"
proof (induction s i x rule: remove_loop.induct)
  case (1 s index x)
  have le: "index \<le> last_idx s" by fact
  then have ne: "index \<noteq> last_idx s + 1" by simp
  from "1.prems"(1) ne have inb: "0 \<le> index" "index < int (length (elements s))"
    and neq: "elements s ! nat index \<noteq> x"
    and rec: "contains_loop (elements s) (index + 1) (last_idx s + 1) x = Inr False"
    by (auto simp: contains_loop.simps [of "elements s" index "last_idx s + 1" x] split: if_splits)
  have get: "vec_get (elements s) index = Inr (elements s ! nat index)"
    using inb by (simp add: vec_get_def)
  show ?case
  proof (cases "index < int_max")
    case True
    then have "index + 1 \<le> last_idx s" using "1.prems"(3) by simp
    then have "remove_loop s (index + 1) x = Inl IntOverflow"
      using "1.IH" [OF le get neq True rec] "1.prems"(3) by simp
    then show ?thesis using le get neq True by (simp add: remove_loop.simps [of s index x])
  next
    case False
    then show ?thesis using le get neq by (simp add: remove_loop.simps [of s index x])
  qed
qed

lemma remove_loop_found:
  assumes "0 \<le> i" "i \<le> k" "k \<le> last_idx s" "last_idx s < int (length (elements s))"
    and "elements s ! nat k = x"
    and "\<forall>j. i \<le> j \<and> j < k \<longrightarrow> elements s ! nat j \<noteq> x"
    and "last_idx s \<le> int_max"
  shows "remove_loop s i x =
    Inr (s\<lparr>elements := (elements s)[nat k := elements s ! nat (last_idx s), nat (last_idx s) := x],
           last_idx := last_idx s - 1\<rparr>)"
  using assms
proof (induction s i x rule: remove_loop.induct)
  case (1 s index x)
  have le: "index \<le> last_idx s" using "1.prems" by linarith
  have get: "vec_get (elements s) index = Inr (elements s ! nat index)"
    using "1.prems" by (simp add: vec_get_def)
  have getl: "vec_get (elements s) (last_idx s) = Inr (elements s ! nat (last_idx s))"
    using "1.prems" by (simp add: vec_get_def)
  show ?case
  proof (cases "index = k")
    case True
    have "remove_loop s index x =
      Inr (s\<lparr>elements := (elements s)[nat index := elements s ! nat (last_idx s), nat (last_idx s) := x],
           last_idx := last_idx s - 1\<rparr>)"
      using le get getl "1.prems" True
      by (subst remove_loop.simps) (simp add: vec_set_def)
    then show ?thesis using True by simp
  next
    case False
    then have lt: "index < k" using "1.prems" by simp
    then have neq: "elements s ! nat index \<noteq> x" using "1.prems" by simp
    have "remove_loop s (index + 1) x =
      Inr (s\<lparr>elements := (elements s)[nat k := elements s ! nat (last_idx s), nat (last_idx s) := x],
           last_idx := last_idx s - 1\<rparr>)"
      using "1.IH" [OF le get neq] lt "1.prems" by simp
    moreover have "index < int_max" using lt "1.prems" by linarith
    ultimately show ?thesis using le get neq by (simp add: remove_loop.simps [of s index x])
  qed
qed

section \<open>Operations on states that satisfy the invariant\<close>

lemma length_active:
  "last_idx s < int (length (elements s)) \<Longrightarrow>
   length (active s) = nat (last_idx s + 1) - nat (first s)"
  by (auto simp: active_def min_def)

lemma size_sas_invar: "invar s \<Longrightarrow> size_sas s = length (active s)"
proof -
  assume a: "invar s"
  then have b: "0 \<le> last_idx s - first s + 1" "last_idx s - first s + 1 < 2 ^ 32"
    by (auto simp: invar_def)
  have "size_sas s = nat (last_idx s - first s + 1)"
    using b by (simp add: size_sas_def)
  also have "\<dots> = length (active s)"
    using a by (simp add: length_active invar_def) linarith
  finally show ?thesis .
qed

lemma contains_invar: "invar s \<Longrightarrow> contains s x = Inr (x \<in> set (active s))"
  unfolding contains_def active_def
  by (rule contains_loop_in_range) (auto simp: invar_def)

lemma insert_sas_member:
  "invar s \<Longrightarrow> x \<in> set (active s) \<Longrightarrow> insert_sas s x = Inr s"
  by (simp add: insert_sas_def contains_invar)

lemma insert_sas_new:
  "invar s \<Longrightarrow> x \<notin> set (active s) \<Longrightarrow> last_idx s + 1 < int (length (elements s)) \<Longrightarrow>
   last_idx s < int_max \<Longrightarrow>
   insert_sas s x =
     Inr (s\<lparr>elements := (elements s)[nat (last_idx s + 1) := x], last_idx := last_idx s + 1\<rparr>)"
  by (simp add: insert_sas_def contains_invar vec_set_def invar_def)

lemma insert_sas_overflow:
  "contains s x = Inr False \<Longrightarrow> last_idx s = int_max \<Longrightarrow> insert_sas s x = Inl IntOverflow"
  by (simp add: insert_sas_def)

lemma insert_sas_no_room:
  "invar s \<Longrightarrow> x \<notin> set (active s) \<Longrightarrow>
   \<not> (last_idx s + 1 < int (length (elements s)) \<and> last_idx s < int_max) \<Longrightarrow>
   insert_sas s x = Inl OutOfBounds \<or> insert_sas s x = Inl IntOverflow"
  by (auto simp: insert_sas_def contains_invar vec_set_def invar_def)

lemma active_push:
  assumes "0 \<le> first s" "first s \<le> last_idx s + 1" "last_idx s + 1 < int (length (elements s))"
  shows "active (s\<lparr>elements := (elements s)[nat (last_idx s + 1) := x], last_idx := last_idx s + 1\<rparr>)
         = active s @ [x]"
proof -
  define n where "n = nat (last_idx s + 1)"
  have n: "n < length (elements s)" "nat (first s) \<le> n" "nat (last_idx s + 1 + 1) = Suc n"
    using assms by (auto simp: n_def)
  have "take (Suc n) ((elements s)[n := x]) = take n (elements s) @ [x]"
    using n(1) by (simp add: take_Suc_conv_app_nth)
  then show ?thesis using n by (simp add: active_def flip: n_def)
qed

lemma invar_push:
  assumes "invar s" "x \<notin> set (active s)" "last_idx s + 1 < int (length (elements s))"
    and "last_idx s < int_max"
  shows "invar (s\<lparr>elements := (elements s)[nat (last_idx s + 1) := x], last_idx := last_idx s + 1\<rparr>)"
proof -
  have "active (s\<lparr>elements := (elements s)[nat (last_idx s + 1) := x], last_idx := last_idx s + 1\<rparr>)
         = active s @ [x]"
    using assms by (intro active_push) (auto simp: invar_def)
  then show ?thesis using assms by (simp add: invar_def)
qed

lemma mset_swap_pop:
  assumes "j < length A"
  shows "mset (butlast (A[j := last A])) + {#A ! j#} = mset A"
proof (cases "Suc j = length A")
  case True
  then have "A \<noteq> []" by auto
  have "j = length A - 1" using True by simp
  then have "A ! j = last A" using \<open>A \<noteq> []\<close> by (simp add: last_conv_nth)
  then have "A[j := last A] = A" by (metis list_update_id)
  moreover have "mset (butlast A) + {#last A#} = mset A"
    using \<open>A \<noteq> []\<close> by (metis append_butlast_last_id mset.simps(1,2) mset_append union_mset_add_mset_right add.right_neutral)
  ultimately show ?thesis using \<open>A ! j = last A\<close> by simp
next
  case False
  define B where "B = A[j := last A]"
  have ne: "A \<noteq> []" "B \<noteq> []" using assms by (auto simp: B_def)
  have lB: "last B = last A"
    using assms False ne by (simp add: B_def last_conv_nth)
  have "mset B = mset A - {#A ! j#} + {#last A#}"
    using assms by (simp add: B_def mset_update)
  moreover have "mset (butlast B) + {#last B#} = mset B"
    using ne by (metis append_butlast_last_id mset.simps(1,2) mset_append union_mset_add_mset_right add.right_neutral)
  moreover have "A ! j \<in># mset A" using assms by simp
  ultimately show ?thesis using lB unfolding B_def by (auto simp: )
qed


lemma nth_active:
  "j < length (active s) \<Longrightarrow> active s ! j = elements s ! (nat (first s) + j)"
proof -
  assume "j < length (active s)"
  then have a: "nat (first s) + j < length (take (nat (last_idx s + 1)) (elements s))"
    "nat (first s) + j < nat (last_idx s + 1)"
    by (auto simp: active_def)
  have "active s ! j = take (nat (last_idx s + 1)) (elements s) ! (nat (first s) + j)"
    unfolding active_def using a(1) by (simp only: nth_drop le_add1)
  also have "\<dots> = elements s ! (nat (first s) + j)"
    using a(2) by (rule nth_take)
  finally show ?thesis .
qed

lemma active_swap_pop:
  assumes "0 \<le> first s" "first s \<le> k" "k \<le> last_idx s"
    and "last_idx s < int (length (elements s))"
  shows "active (s\<lparr>elements := (elements s)[nat k := elements s ! nat (last_idx s),
                                             nat (last_idx s) := x],
                   last_idx := last_idx s - 1\<rparr>)
         = butlast ((active s)[nat (k - first s) := last (active s)])"
proof -
  define es where "es = elements s"
  define f where "f = nat (first s)"
  define l where "l = nat (last_idx s)"
  define kk where "kk = nat k"
  define y where "y = es ! l"
  have idx: "f \<le> kk" "kk \<le> l" "l < length es" "nat (last_idx s + 1) = Suc l"
    "nat (last_idx s - 1 + 1) = l" "nat (k - first s) = kk - f"
    using assms by (auto simp: f_def l_def kk_def es_def)
  have act: "active s = drop f (take (Suc l) es)"
    using idx by (simp add: active_def f_def es_def)
  have ne: "f < length (take (Suc l) es)" using idx by simp
  have "last (active s) = last (take (Suc l) es)"
    unfolding act using ne by (rule last_drop)
  also have "\<dots> = es ! l"
    using idx by (simp add: take_Suc_conv_app_nth)
  finally have la: "last (active s) = y" by (simp add: y_def)
  have "butlast ((active s)[kk - f := y]) = butlast (drop f ((take (Suc l) es)[kk := y]))"
    unfolding act using idx by (simp add: drop_update_swap)
  also have "\<dots> = drop f (butlast (take (Suc l) (es[kk := y])))"
    by (simp add: drop_butlast take_update_swap)
  also have "\<dots> = drop f (take l (es[kk := y]))"
    using idx by (simp add: butlast_take)
  also have "\<dots> = drop f (take l (es[kk := y, l := x]))"
    by simp
  finally have "butlast ((active s)[kk - f := y]) = drop f (take l (es[kk := y, l := x]))" .
  then show ?thesis
    using idx la by (simp add: active_def flip: es_def f_def l_def kk_def y_def)
qed

lemma active_memberE:
  assumes "invar s" "x \<in> set (active s)"
  obtains k where "first s \<le> k" "k \<le> last_idx s" "elements s ! nat k = x"
proof -
  from assms(2) obtain j where j: "j < length (active s)" "active s ! j = x"
    by (auto simp: in_set_conv_nth)
  have len: "length (active s) = nat (last_idx s + 1) - nat (first s)"
    using assms(1) by (simp add: length_active invar_def)
  have "0 \<le> first s" using assms(1) by (simp add: invar_def)
  with j len have "first s \<le> first s + int j" "first s + int j \<le> last_idx s"
    "nat (first s + int j) = nat (first s) + j"
    by (auto simp: nat_add_distrib)
  with j show thesis using that [of "first s + int j"] by (simp add: nth_active)
qed

lemma active_index:
  assumes "invar s" "first s \<le> k" "k \<le> last_idx s"
  shows "nat (k - first s) < length (active s)"
    and "active s ! nat (k - first s) = elements s ! nat k"
proof -
  have len: "length (active s) = nat (last_idx s + 1) - nat (first s)"
    using assms(1) by (simp add: length_active invar_def)
  have f: "0 \<le> first s" using assms(1) by (simp add: invar_def)
  show lt: "nat (k - first s) < length (active s)"
    using len f assms(2,3) by linarith
  have "nat (first s) + nat (k - first s) = nat k" using f assms(2) by linarith
  then show "active s ! nat (k - first s) = elements s ! nat k"
    using lt by (simp add: nth_active)
qed

lemma remove_sas_at:
  assumes "invar s" "first s \<le> k" "k \<le> last_idx s" "elements s ! nat k = x"
  shows "remove_sas s x =
    Inr (s\<lparr>elements := (elements s)[nat k := elements s ! nat (last_idx s), nat (last_idx s) := x],
           last_idx := last_idx s - 1\<rparr>)"
  unfolding remove_sas_def
proof (rule remove_loop_found)
  show "0 \<le> first s" "last_idx s < int (length (elements s))" "last_idx s \<le> int_max"
    using assms(1) by (simp_all add: invar_def)
  show "first s \<le> k" "k \<le> last_idx s" "elements s ! nat k = x" by fact+
  show "\<forall>j. first s \<le> j \<and> j < k \<longrightarrow> elements s ! nat j \<noteq> x"
  proof (intro allI impI notI)
    fix j assume j: "first s \<le> j \<and> j < k" and eq: "elements s ! nat j = x"
    have d: "distinct (active s)" using assms(1) by (simp add: invar_def)
    have "nat (j - first s) < length (active s)" "active s ! nat (j - first s) = x"
      using active_index [of s j] assms(1,3) j eq by auto
    moreover have "nat (k - first s) < length (active s)" "active s ! nat (k - first s) = x"
      using active_index [of s k] assms by auto
    ultimately have "nat (j - first s) = nat (k - first s)"
      using d nth_eq_iff_index_eq [of "active s" "nat (j - first s)" "nat (k - first s)"] by simp
    then show False using j by linarith
  qed
qed

lemma remove_sas_effect:
  assumes "invar s" "first s \<le> k" "k \<le> last_idx s" "elements s ! nat k = x"
  defines "s' \<equiv> s\<lparr>elements := (elements s)[nat k := elements s ! nat (last_idx s), nat (last_idx s) := x],
           last_idx := last_idx s - 1\<rparr>"
  shows "mset (active s') + {#x#} = mset (active s)" and "invar s'"
proof -
  have b: "0 \<le> first s" "last_idx s < int (length (elements s))" "length (elements s) < 2 ^ 32"
    "distinct (active s)" "last_idx s \<le> int_max"
    using assms(1) by (simp_all add: invar_def)
  have act: "active s' = butlast ((active s)[nat (k - first s) := last (active s)])"
    unfolding s'_def using b assms(2,3) by (intro active_swap_pop)
  have j: "nat (k - first s) < length (active s)" "active s ! nat (k - first s) = x"
    using active_index [of s k] assms by auto
  show m: "mset (active s') + {#x#} = mset (active s)"
    unfolding act using mset_swap_pop [OF j(1)] j(2) by simp
  then have "mset (x # active s') = mset (active s)" by simp
  then have "distinct (x # active s')"
    using b(4) by (metis mset_eq_imp_distinct_iff)
  then have "distinct (active s')" by simp
  then show "invar s'"
    using b assms(2,3) by (simp add: invar_def s'_def) 
qed

lemma invar_insert_sas:
  assumes "invar s" "insert_sas s x = Inr s'"
  shows "invar s'"
proof (cases "x \<in> set (active s)")
  case True
  then show ?thesis using assms by (simp add: insert_sas_member)
next
  case False
  show ?thesis
  proof (cases "last_idx s + 1 < int (length (elements s)) \<and> last_idx s < int_max")
    case True
    then show ?thesis
      using assms False invar_push [of s x] by (simp add: insert_sas_new)
  next
    case full: False
    then show ?thesis using assms False insert_sas_no_room [of s x] by auto
  qed
qed

lemma invar_remove_sas:
  assumes "invar s" "remove_sas s x = Inr s'"
  shows "invar s'"
proof (cases "x \<in> set (active s)")
  case True
  with assms(1) obtain k where k: "first s \<le> k" "k \<le> last_idx s" "elements s ! nat k = x"
    by (rule active_memberE)
  show ?thesis
    using assms remove_sas_at [OF assms(1) k] remove_sas_effect(2) [OF assms(1) k] by simp
next
  case False
  then have "contains s x = Inr False" using assms(1) by (simp add: contains_invar)
  then have "remove_sas s x = Inr s \<or> remove_sas s x = Inl IntOverflow"
    unfolding contains_def remove_sas_def by (rule remove_loop_absent_cases)
  then show ?thesis using assms by auto
qed

lemma invar_construct: "invar (construct sz)"
proof -
  have "unat sz < 2 ^ 32" using unsigned_less [of sz, where ?'a = nat] by simp
  moreover have "(- 1 :: int) < uint sz" using unsigned_greater_eq [of sz, where ?'a = int] by linarith
  ultimately show ?thesis by (simp add: invar_def construct_def active_def int_max_def)
qed

lemma invar_construct_default: "invar construct_default"
  by (simp add: invar_def construct_default_def active_def int_max_def)

lemma length_vec_resize: "length (vec_resize v n x) = n"
  by (simp add: vec_resize_def)

lemma invar_init: "invar (init s sz)"
proof -
  have "unat sz < 2 ^ 32" using unsigned_less [of sz, where ?'a = nat] by simp
  moreover have "(- 1 :: int) < uint sz" using unsigned_greater_eq [of sz, where ?'a = int] by linarith
  ultimately show ?thesis by (simp add: invar_def init_def active_def length_vec_resize int_max_def)
qed

lemma invar_clear: "invar s \<Longrightarrow> invar (clear s)"
  by (simp add: invar_def clear_def active_def int_max_def)

lemma reachable_invar: "reachable s \<Longrightarrow> invar s"
proof (induction rule: reachable.induct)
  case (r_move_from s other x s' other')
  then show ?case
    by (auto simp: move_to_def split: sum.splits intro: invar_remove_sas)
next
  case (r_move_into s other x s' other')
  then show ?case
    by (auto simp: move_to_def split: sum.splits intro: invar_insert_sas)
qed (auto intro: invar_construct invar_construct_default invar_init invar_clear
       invar_insert_sas invar_remove_sas)

lemma remdups_snoc: "remdups (zs @ [x]) = filter (\<lambda>y. y \<noteq> x) (remdups zs) @ [x]"
  by (induction zs) auto

lemma first_occurrences_Cons:
  assumes "x \<notin> A"
  shows "rev (remdups (rev (filter (\<lambda>y. y \<notin> A) (x # xs))))
         = x # rev (remdups (rev (filter (\<lambda>y. y \<notin> insert x A) xs)))"
proof -
  let ?ys = "filter (\<lambda>y. y \<notin> A) xs"
  have "filter (\<lambda>y. y \<notin> insert x A) xs = filter (\<lambda>y. y \<noteq> x) ?ys"
    by (induction xs) auto
  moreover have "rev (remdups (rev (x # ?ys))) = x # rev (remdups (rev (filter (\<lambda>y. y \<noteq> x) ?ys)))"
    by (simp add: remdups_snoc remdups_filter rev_filter)
  ultimately show ?thesis using assms by simp
qed

lemma insert_all_members:
  "invar s \<Longrightarrow>
   last_idx s + 1 + int (card (set xs - set (active s))) \<le> int (length (elements s)) \<Longrightarrow>
   last_idx s + int (card (set xs - set (active s))) \<le> int_max \<Longrightarrow>
   \<exists>s'. insert_all s xs = Inr s' \<and> invar s' \<and>
        active s' = active s @ rev (remdups (rev (filter (\<lambda>y. y \<notin> set (active s)) xs))) \<and>
        set (active s') = set (active s) \<union> set xs \<and>
        first s' = first s \<and>
        last_idx s' = last_idx s + int (card (set xs - set (active s))) \<and>
        length (elements s') = length (elements s)"
proof (induction xs arbitrary: s)
  case Nil
  then show ?case by simp
next
  case (Cons x xs)
  show ?case
  proof (cases "x \<in> set (active s)")
    case True
    then have eq: "set (x # xs) - set (active s) = set xs - set (active s)" by auto
    have ins: "insert_sas s x = Inr s" using Cons.prems(1) True by (rule insert_sas_member)
    from Cons.IH [OF Cons.prems(1)] Cons.prems(2,3) eq
    obtain s' where "insert_all s xs = Inr s'" "invar s'"
      "active s' = active s @ rev (remdups (rev (filter (\<lambda>y. y \<notin> set (active s)) xs)))"
      "set (active s') = set (active s) \<union> set xs" "first s' = first s"
      "last_idx s' = last_idx s + int (card (set xs - set (active s)))"
      "length (elements s') = length (elements s)"
      by auto
    then show ?thesis using ins eq True by auto
  next
    case False
    let ?s1 = "s\<lparr>elements := (elements s)[nat (last_idx s + 1) := x], last_idx := last_idx s + 1\<rparr>"
    have eq: "set (x # xs) - set (active s) = insert x (set xs - set (active s @ [x]))"
      using False by auto
    have "x \<notin> set xs - set (active s @ [x])" by simp
    then have card: "card (set (x # xs) - set (active s)) = Suc (card (set xs - set (active s @ [x])))"
      unfolding eq by (simp add: card_insert_if)
    have room: "last_idx s + 1 < int (length (elements s))"
      using Cons.prems(2) card by linarith
    have small: "last_idx s < int_max"
      using Cons.prems(3) card by linarith
    have ins: "insert_sas s x = Inr ?s1"
      using Cons.prems(1) False room small by (rule insert_sas_new)
    have inv1: "invar ?s1" using Cons.prems(1) False room small by (rule invar_push)
    have act1: "active ?s1 = active s @ [x]"
      using Cons.prems(1) room by (intro active_push) (auto simp: invar_def)
    have r1: "last_idx ?s1 + 1 + int (card (set xs - set (active ?s1))) \<le> int (length (elements ?s1))"
      using Cons.prems(2) card act1 by simp
    have b1: "last_idx ?s1 + int (card (set xs - set (active ?s1))) \<le> int_max"
      using Cons.prems(3) card act1 by simp
    from Cons.IH [OF inv1 r1 b1]
    obtain s' where s': "insert_all ?s1 xs = Inr s'" "invar s'"
      "active s' = active ?s1 @ rev (remdups (rev (filter (\<lambda>y. y \<notin> set (active ?s1)) xs)))"
      "set (active s') = set (active ?s1) \<union> set xs" "first s' = first ?s1"
      "last_idx s' = last_idx ?s1 + int (card (set xs - set (active ?s1)))"
      "length (elements s') = length (elements ?s1)"
      by auto
    have "insert_all s (x # xs) = Inr s'" using ins s'(1) by simp
    moreover have "set (active s') = set (active s) \<union> set (x # xs)"
      using s'(4) act1 by auto
    moreover have "last_idx s' = last_idx s + int (card (set (x # xs) - set (active s)))"
      using s'(6) act1 card by simp
    moreover have "active s'
        = active s @ rev (remdups (rev (filter (\<lambda>y. y \<notin> set (active s)) (x # xs))))"
      using s'(3) act1 first_occurrences_Cons [OF False, of xs] by simp
    ultimately show ?thesis using s'(2,5,7) by simp
  qed
qed

lemma active_resize:
  "last_idx s + 1 \<le> int n \<Longrightarrow> last_idx s < int (length (elements s)) \<Longrightarrow>
   active (s\<lparr>elements := vec_resize (elements s) n d\<rparr>) = active s"
proof -
  assume a: "last_idx s + 1 \<le> int n" "last_idx s < int (length (elements s))"
  then have "nat (last_idx s + 1) \<le> n" "nat (last_idx s + 1) \<le> length (elements s)"
    by linarith+
  then show ?thesis by (simp add: active_def vec_resize_def)
qed

lemma insert_sas_then_contains:
  assumes "insert_sas s x = Inr s1"
  shows "contains s1 x = Inr True"
proof (cases "contains s x")
  case (Inl err)
  then show ?thesis using assms by (simp add: insert_sas_def)
next
  case (Inr b)
  show ?thesis
  proof (cases b)
    case True
    then show ?thesis using assms Inr by (simp add: insert_sas_def)
  next
    case False
    define l where "l = last_idx s + 1"
    from assms Inr False have inb: "0 \<le> l" "l < int (length (elements s))"
      and s1: "s1 = s\<lparr>elements := (elements s)[nat l := x], last_idx := l\<rparr>"
      by (auto simp: insert_sas_def vec_set_def l_def split: if_splits)
    from Inr False have "contains_loop (elements s) (first s) l x = Inr False"
      by (simp add: contains_def l_def)
    from contains_loop_FalseD [OF this] inb
    have f: "0 \<le> first s" "first s \<le> l" by auto
    have "contains s1 x =
      Inr (x \<in> set (drop (nat (first s)) (take (nat (l + 1)) ((elements s)[nat l := x]))))"
      unfolding contains_def s1 using f inb
      by (simp add: contains_loop_in_range)
    moreover have "nat (l + 1) = Suc (nat l)" "nat (first s) \<le> nat l" "nat l < length (elements s)"
      using f inb by auto
    ultimately show ?thesis
      by (simp add: take_Suc_conv_app_nth)
  qed
qed


lemma unat_length_adj: "n < 2 ^ 32 \<Longrightarrow> unat (word_of_nat n :: 32 word) = n"
  by (simp add: unat_of_nat)

lemma resize_keeps_active:
  assumes "invar s" "last_idx s + 1 \<le> int (unat w)"
  shows "invar (resize s w)"
    and "active (resize s w) = active s"
    and "length (elements (resize s w)) = unat w"
    and "first (resize s w) = first s"
    and "last_idx (resize s w) = last_idx s"
proof -
  have u: "unat w < 2 ^ 32" using unsigned_less [of w, where ?'a = nat] by simp
  have l: "last_idx s < int (length (elements s))" using assms(1) by (simp add: invar_def)
  show a: "active (resize s w) = active s"
    unfolding resize_def using assms(2) l by (rule active_resize)
  show len: "length (elements (resize s w)) = unat w"
    by (simp add: resize_def length_vec_resize)
  show f: "first (resize s w) = first s" and la: "last_idx (resize s w) = last_idx s"
    by (simp_all add: resize_def)
  have "last_idx (resize s w) < int (length (elements (resize s w)))"
    unfolding len la using assms(2) by linarith
  then show "invar (resize s w)"
    using assms(1) a len f la u by (simp add: invar_def)
qed

section \<open>The claims\<close>



text \<open>
  Claim C2. Let \<open>A\<close> and \<open>B\<close> be two sets that satisfy the invariant, \<open>x\<close> a member
  of \<open>A\<close> and not of \<open>B\<close>, and let \<open>B\<close> have spare capacity: a free slot after
  \<open>last\<close>, and \<open>last\<close> below \<^verbatim>\<open>INT_MAX\<close>, so that the \<^verbatim>\<open>last++\<close> of the insert can
  count. Then
  \<^verbatim>\<open>A.move_to(x, B)\<close> returns, \<open>x\<close> is no member of \<open>A\<close> and a member of \<open>B\<close>
  afterwards, the size of \<open>A\<close> has gone down by exactly one and the size of \<open>B\<close>
  up by exactly one.
\<close>

theorem move_to_semantics:
  assumes "invar A" and "invar B"
    and "contains A x = Inr True" and "contains B x = Inr False"
    and "last_idx B + 1 < int (length (elements B))"
    and "last_idx B < int_max"
  shows "\<exists>A' B'. move_to A x B = Inr (A', B') \<and>
           contains A' x = Inr False \<and> contains B' x = Inr True \<and>
           size_sas A' + 1 = size_sas A \<and> size_sas B' = size_sas B + 1"
proof -
  have inA: "x \<in> set (active A)" and notB: "x \<notin> set (active B)"
    using assms(1-4) by (simp_all add: contains_invar)
  from assms(1) inA obtain k where k: "first A \<le> k" "k \<le> last_idx A" "elements A ! nat k = x"
    by (rule active_memberE)
  define A' where "A' = A\<lparr>elements := (elements A)[nat k := elements A ! nat (last_idx A),
                                                   nat (last_idx A) := x],
                         last_idx := last_idx A - 1\<rparr>"
  define B' where "B' = B\<lparr>elements := (elements B)[nat (last_idx B + 1) := x],
                         last_idx := last_idx B + 1\<rparr>"
  have rem: "remove_sas A x = Inr A'"
    unfolding A'_def using assms(1) k by (rule remove_sas_at)
  have mA: "mset (active A') + {#x#} = mset (active A)" and invA': "invar A'"
    unfolding A'_def using remove_sas_effect [OF assms(1) k] by simp_all
  note smallB = assms(6)
  have ins: "insert_sas B x = Inr B'"
    unfolding B'_def using assms(2) notB assms(5) smallB by (rule insert_sas_new)
  have invB': "invar B'"
    unfolding B'_def using assms(2) notB assms(5) smallB by (rule invar_push)
  have actB': "active B' = active B @ [x]"
    unfolding B'_def using assms(2,5) by (intro active_push) (auto simp: invar_def)
  have "distinct (active A)" using assms(1) by (simp add: invar_def)
  then have "distinct (x # active A')"
    using mA by (metis mset.simps(2) mset_eq_imp_distinct_iff union_mset_add_mset_right add.right_neutral)
  then have "x \<notin> set (active A')" by simp
  then have cA: "contains A' x = Inr False" using invA' by (simp add: contains_invar)
  have cB: "contains B' x = Inr True" using invB' actB' by (simp add: contains_invar)
  have "size (mset (active A') + {#x#}) = size (mset (active A))" using mA by simp
  then have sA: "size_sas A' + 1 = size_sas A"
    using invA' assms(1) by (simp add: size_sas_invar)
  have sB: "size_sas B' = size_sas B + 1"
    using invB' assms(2) actB' by (simp add: size_sas_invar)
  have "move_to A x B = Inr (A', B')" using rem ins by (simp add: move_to_def)
  then show ?thesis using cA cB sA sB by blast
qed

theorem move_to_semantics_witness:
  "invar \<lparr>elements = [5, 7, 9, - 1], first = 0, last_idx = 2\<rparr> \<and>
   invar \<lparr>elements = [4, - 1], first = 0, last_idx = 0\<rparr> \<and>
   contains \<lparr>elements = [5, 7, 9, - 1], first = 0, last_idx = 2\<rparr> 5 = Inr True \<and>
   contains \<lparr>elements = [4, - 1], first = 0, last_idx = 0\<rparr> 5 = Inr False \<and>
   last_idx \<lparr>elements = [4, - 1], first = 0, last_idx = 0\<rparr> + 1
     < int (length (elements \<lparr>elements = [4, - 1], first = 0, last_idx = 0\<rparr>)) \<and>
   last_idx \<lparr>elements = [4, - 1], first = 0, last_idx = 0\<rparr> < int_max \<and>
   (\<exists>A' B'. move_to \<lparr>elements = [5, 7, 9, - 1], first = 0, last_idx = 2\<rparr> 5
               \<lparr>elements = [4, - 1], first = 0, last_idx = 0\<rparr> = Inr (A', B') \<and>
           contains A' 5 = Inr False \<and> contains B' 5 = Inr True \<and>
           size_sas A' + 1 = size_sas \<lparr>elements = [5, 7, 9, - 1], first = 0, last_idx = 2\<rparr> \<and>
           size_sas B' = size_sas \<lparr>elements = [4, - 1], first = 0, last_idx = 0\<rparr> + 1)"
proof -
  have a: "invar \<lparr>elements = [5, 7, 9, - 1], first = 0, last_idx = 2\<rparr>"
    by (simp add: invar_def active_def int_max_def)
  have b: "invar \<lparr>elements = [4, - 1], first = 0, last_idx = 0\<rparr>"
    by (simp add: invar_def active_def int_max_def)
  have f: "last_idx \<lparr>elements = [4, - 1], first = 0, last_idx = 0\<rparr> < int_max"
    by (simp add: int_max_def)
  have c: "contains \<lparr>elements = [5, 7, 9, - 1], first = 0, last_idx = 2\<rparr> 5 = Inr True"
    by code_simp
  have d: "contains \<lparr>elements = [4, - 1], first = 0, last_idx = 0\<rparr> 5 = Inr False"
    by code_simp
  have e: "last_idx \<lparr>elements = [4, - 1], first = 0, last_idx = 0\<rparr> + 1
     < int (length (elements \<lparr>elements = [4, - 1], first = 0, last_idx = 0\<rparr>))"
    by simp
  show ?thesis using a b c d e f move_to_semantics [OF a b c d e f] by blast
qed

text \<open>
  Claim C3. When \<^verbatim>\<open>contains(x)\<close> answers true, \<^verbatim>\<open>insert(x)\<close> returns the state as it
  was (vector, cursors, and with them size and membership). And whenever a first
  \<^verbatim>\<open>insert(x)\<close> has returned a state \<open>s1\<close>, a second \<^verbatim>\<open>insert(x)\<close> returns
  \<open>s1\<close> again and \<^verbatim>\<open>contains(x)\<close> is true in it.
\<close>

theorem insert_idempotent:
  "(contains s x = Inr True \<longrightarrow> insert_sas s x = Inr s) \<and>
   (insert_sas s x = Inr s1 \<longrightarrow>
      insert_sas s1 x = Inr s1 \<and> contains s1 x = Inr True)"
proof (intro conjI impI)
  assume "contains s x = Inr True"
  then show "insert_sas s x = Inr s" by (simp add: insert_sas_def)
next
  assume "insert_sas s x = Inr s1"
  then show c: "contains s1 x = Inr True" by (rule insert_sas_then_contains)
  then show "insert_sas s1 x = Inr s1" by (simp add: insert_sas_def)
qed

theorem insert_idempotent_witness:
  "contains \<lparr>elements = [5, 7, - 1], first = 0, last_idx = 1\<rparr> 7 = Inr True \<and>
   insert_sas \<lparr>elements = [5, 7, - 1], first = 0, last_idx = 1\<rparr> 7
     = Inr \<lparr>elements = [5, 7, - 1], first = 0, last_idx = 1\<rparr> \<and>
   insert_sas \<lparr>elements = [5, 7, - 1], first = 0, last_idx = 1\<rparr> 9
     = Inr \<lparr>elements = [5, 7, 9], first = 0, last_idx = 2\<rparr> \<and>
   insert_sas \<lparr>elements = [5, 7, 9], first = 0, last_idx = 2\<rparr> 9
     = Inr \<lparr>elements = [5, 7, 9], first = 0, last_idx = 2\<rparr> \<and>
   contains \<lparr>elements = [5, 7, 9], first = 0, last_idx = 2\<rparr> 9 = Inr True"
proof -
  have c: "contains \<lparr>elements = [5, 7, - 1], first = 0, last_idx = 1\<rparr> 7 = Inr True"
    by code_simp
  have i: "insert_sas \<lparr>elements = [5, 7, - 1], first = 0, last_idx = 1\<rparr> 9
     = Inr \<lparr>elements = [5, 7, 9], first = 0, last_idx = 2\<rparr>"
    by code_simp
  have a: "insert_sas \<lparr>elements = [5, 7, - 1], first = 0, last_idx = 1\<rparr> 7
     = Inr \<lparr>elements = [5, 7, - 1], first = 0, last_idx = 1\<rparr>"
    using insert_idempotent [of "\<lparr>elements = [5, 7, - 1], first = 0, last_idx = 1\<rparr>" 7] c
    by blast
  have b: "insert_sas \<lparr>elements = [5, 7, 9], first = 0, last_idx = 2\<rparr> 9
     = Inr \<lparr>elements = [5, 7, 9], first = 0, last_idx = 2\<rparr> \<and>
     contains \<lparr>elements = [5, 7, 9], first = 0, last_idx = 2\<rparr> 9 = Inr True"
    using insert_idempotent [of "\<lparr>elements = [5, 7, - 1], first = 0, last_idx = 1\<rparr>" 9
        "\<lparr>elements = [5, 7, 9], first = 0, last_idx = 2\<rparr>"] i
    by blast
  show ?thesis using c a i b by blast
qed



text \<open>
  Claim C5 (invariant I2). In every state reachable through the constructors,
  \<^verbatim>\<open>init\<close>, \<^verbatim>\<open>insert\<close>, \<^verbatim>\<open>remove\<close>, \<^verbatim>\<open>move_to\<close> and \<^verbatim>\<open>clear\<close>, with every call
  inside the vector and the range of \<^verbatim>\<open>int\<close>, the values of the active range are
  pairwise distinct.
\<close>

theorem reachable_distinct: "reachable s \<Longrightarrow> distinct (active s)"
  using reachable_invar [of s] by (simp add: invar_def)

theorem reachable_distinct_witness:
  "reachable \<lparr>elements = [9, 7, 5], first = 0, last_idx = 1\<rparr> \<and>
   active \<lparr>elements = [9, 7, 5], first = 0, last_idx = 1\<rparr> = [9, 7] \<and>
   distinct (active \<lparr>elements = [9, 7, 5], first = 0, last_idx = 1\<rparr>)"
proof -
  have r0: "reachable (construct 3)" by (rule r_construct)
  have e1: "insert_sas (construct 3) 5 = Inr \<lparr>elements = [5, - 1, - 1], first = 0, last_idx = 0\<rparr>"
    by code_simp
  have e2: "insert_sas \<lparr>elements = [5, - 1, - 1], first = 0, last_idx = 0\<rparr> 7
    = Inr \<lparr>elements = [5, 7, - 1], first = 0, last_idx = 1\<rparr>"
    by code_simp
  have e3: "insert_sas \<lparr>elements = [5, 7, - 1], first = 0, last_idx = 1\<rparr> 9
    = Inr \<lparr>elements = [5, 7, 9], first = 0, last_idx = 2\<rparr>"
    by code_simp
  have e4: "remove_sas \<lparr>elements = [5, 7, 9], first = 0, last_idx = 2\<rparr> 5
    = Inr \<lparr>elements = [9, 7, 5], first = 0, last_idx = 1\<rparr>"
    by code_simp
  have r: "reachable \<lparr>elements = [9, 7, 5], first = 0, last_idx = 1\<rparr>"
    by (rule r_remove [OF r_insert [OF r_insert [OF r_insert [OF r0 e1] e2] e3] e4])
  have a: "active \<lparr>elements = [9, 7, 5], first = 0, last_idx = 1\<rparr> = [9, 7]"
    by (simp add: active_def)
  show ?thesis using r a reachable_distinct [OF r] by blast
qed

text \<open>
  Claim C6, as stated, fails for a set without slots: after \<^verbatim>\<open>clear()\<close> on a
  default-constructed set, \<^verbatim>\<open>insert(5)\<close> writes \<^verbatim>\<open>elements[0]\<close> of an empty vector.
\<close>

theorem clear_then_insert_zero_capacity:
  "insert_sas (clear construct_default) 5 = Inl OutOfBounds"
  by code_simp

text \<open>
  Claim C6, amended. For every state \<open>s\<close>, whatever it held, \<^verbatim>\<open>clear()\<close> gives size 0,
  \<open>first = 0\<close>, \<open>last = -1\<close> and leaves every slot of the vector as it was. When
  the vector has at least one slot, a following \<^verbatim>\<open>insert(x)\<close> returns; it has written
  slot 0 only, and the set then has the single member \<open>x\<close>.
\<close>

theorem clear_resets_cursors_only:
  "size_sas (clear s) = 0 \<and> first (clear s) = 0 \<and> last_idx (clear s) = - 1 \<and>
   elements (clear s) = elements s \<and>
   (elements s \<noteq> [] \<longrightarrow>
      (\<exists>s'. insert_sas (clear s) x = Inr s' \<and> elements s' = (elements s)[0 := x] \<and>
            active s' = [x] \<and> size_sas s' = 1 \<and> (\<forall>y. contains s' y = Inr (y = x))))"
proof -
  have cur: "size_sas (clear s) = 0 \<and> first (clear s) = 0 \<and> last_idx (clear s) = - 1 \<and>
    elements (clear s) = elements s"
    by (simp add: clear_def size_sas_def)
  have ins: "\<exists>s'. insert_sas (clear s) x = Inr s' \<and> elements s' = (elements s)[0 := x] \<and>
            active s' = [x] \<and> size_sas s' = 1 \<and> (\<forall>y. contains s' y = Inr (y = x))"
    if ne: "elements s \<noteq> []"
  proof -
    define s' where "s' = (clear s)\<lparr>elements := (elements s)[0 := x], last_idx := 0\<rparr>"
    have c0: "contains (clear s) x = Inr False"
      by (simp add: contains_def clear_def contains_loop.simps [of _ 0 0])
    have i: "insert_sas (clear s) x = Inr s'"
      using ne c0 by (simp add: insert_sas_def vec_set_def clear_def s'_def int_max_def)
    have act: "active s' = [x]"
      using ne by (cases "elements s") (simp_all add: s'_def active_def clear_def)
    have "0 \<le> first s'" "first s' \<le> last_idx s' + 1" "last_idx s' + 1 \<le> int (length (elements s'))"
      using ne by (cases "elements s"; simp add: s'_def clear_def)+
    then have "contains s' y = Inr (y \<in> set (active s'))" for y
      unfolding contains_def active_def by (rule contains_loop_in_range)
    then have mem: "\<forall>y. contains s' y = Inr (y = x)" using act by simp
    have "size_sas s' = 1" by (simp add: s'_def size_sas_def clear_def)
    moreover have "elements s' = (elements s)[0 := x]" by (simp add: s'_def)
    ultimately show ?thesis using i act mem by blast
  qed
  show ?thesis using cur ins by blast
qed

theorem clear_resets_cursors_only_witness:
  "size_sas (clear \<lparr>elements = [5, 7, 9, - 1], first = 0, last_idx = 2\<rparr>) = 0 \<and>
   elements (clear \<lparr>elements = [5, 7, 9, - 1], first = 0, last_idx = 2\<rparr>) = [5, 7, 9, - 1] \<and>
   elements \<lparr>elements = [5, 7, 9, - 1], first = 0, last_idx = 2\<rparr> \<noteq> [] \<and>
   (\<exists>s'. insert_sas (clear \<lparr>elements = [5, 7, 9, - 1], first = 0, last_idx = 2\<rparr>) 4 = Inr s' \<and>
         elements s' = [4, 7, 9, - 1] \<and> active s' = [4] \<and> size_sas s' = 1 \<and>
         contains s' 4 = Inr True \<and> contains s' 5 = Inr False)"
proof -
  let ?s = "\<lparr>elements = [5, 7, 9, - 1], first = 0, last_idx = 2\<rparr>"
  have ne: "elements ?s \<noteq> []" by simp
  note t = clear_resets_cursors_only [of ?s 4]
  from t have a: "size_sas (clear ?s) = 0" "elements (clear ?s) = elements ?s" by blast+
  from t ne obtain s' where s': "insert_sas (clear ?s) 4 = Inr s'"
    "elements s' = (elements ?s)[0 := 4]" "active s' = [4]" "size_sas s' = 1"
    "\<forall>y. contains s' y = Inr (y = 4)"
    by blast
  have "elements s' = [4, 7, 9, - 1]" using s'(2) by simp
  moreover have "contains s' 4 = Inr True" "contains s' 5 = Inr False" using s'(5) by simp_all
  moreover have "elements (clear ?s) = [5, 7, 9, - 1]" using a(2) by simp
  ultimately show ?thesis using a(1) ne s'(1,3,4) by blast
qed

text \<open>
  Claim C7, as stated, fails on its own scenario. The adjacency with the rows
  \<open>[1, 2, 3]\<close> and \<open>[0]\<close> has two rows, so \<^verbatim>\<open>resize(adj.size())\<close> leaves a vector of
  two slots, and the third \<^verbatim>\<open>insert\<close> writes \<^verbatim>\<open>elements[2]\<close>: outside the vector,
  from the default constructor as well as from a set built with a larger capacity.
\<close>

theorem adjacency_scenario_out_of_bounds:
  "init_from_adj construct_default [[1, 2, 3], [0]] 0 = Inl OutOfBounds \<and>
   init_from_adj (construct 8) [[1, 2, 3], [0]] 0 = Inl OutOfBounds"
  by code_simp

text \<open>
  Claim C7, amended. Let \<open>s\<close> satisfy the invariant (a fresh set does, and so does
  one that has members already), \<open>node\<close> be a row of \<open>adj\<close>, the number of rows fit
  \<^verbatim>\<open>unsigned int\<close>, and the rows be enough slots for the members of \<open>s\<close> together
  with the neighbours of \<open>node\<close> that are not members yet, the last of them at an
  index of at most \<^verbatim>\<open>INT_MAX\<close>. Then \<^verbatim>\<open>init_from_adj\<close>
  returns a state whose vector has as many slots as \<open>adj\<close> has rows and whose active
  range is the old one followed by the neighbours of \<open>node\<close> in the order of the row,
  each at its first occurrence and without those that were members already. So the
  size has grown by the number of new neighbours, and the members are the former
  members and the neighbours.
\<close>

theorem init_from_adj_inserts_in_order:
  assumes "invar s" and "0 \<le> node" and "node < int (length adj)"
    and "length adj < 2 ^ 32"
    and "last_idx s + 1 + int (card (set (adj ! nat node) - set (active s))) \<le> int (length adj)"
    and "last_idx s + int (card (set (adj ! nat node) - set (active s))) \<le> int_max"
  shows "\<exists>s'. init_from_adj s adj node = Inr s' \<and>
           length (elements s') = length adj \<and>
           active s' = active s @
             rev (remdups (rev (filter (\<lambda>y. y \<notin> set (active s)) (adj ! nat node)))) \<and>
           size_sas s' = size_sas s + card (set (adj ! nat node) - set (active s)) \<and>
           (\<forall>y. contains s' y = Inr (y \<in> set (active s) \<or> y \<in> set (adj ! nat node)))"
proof -
  let ?w = "word_of_nat (length adj) :: 32 word"
  let ?r = "resize s ?w"
  let ?ns = "adj ! nat node"
  have u: "unat ?w = length adj" using assms(4) by (rule unat_length_adj)
  have fit: "last_idx s + 1 \<le> int (unat ?w)" using assms(5) u by linarith
  note r = resize_keeps_active [OF assms(1) fit]
  have room: "last_idx ?r + 1 + int (card (set ?ns - set (active ?r))) \<le> int (length (elements ?r))"
    using assms(5) r(2,3,5) u by simp
  have small: "last_idx ?r + int (card (set ?ns - set (active ?r))) \<le> int_max"
    using assms(6) r(2,5) by simp
  from insert_all_members [OF r(1) room small]
  obtain s' where s': "insert_all ?r ?ns = Inr s'" "invar s'"
    "active s' = active ?r @ rev (remdups (rev (filter (\<lambda>y. y \<notin> set (active ?r)) ?ns)))"
    "set (active s') = set (active ?r) \<union> set ?ns" "first s' = first ?r"
    "last_idx s' = last_idx ?r + int (card (set ?ns - set (active ?r)))"
    "length (elements s') = length (elements ?r)"
    by blast
  have run: "init_from_adj s adj node = Inr s'"
    using s'(1) assms(2,3) by (simp add: init_from_adj_def)
  have len: "length (elements s') = length adj" using s'(7) r(3) u by simp
  have ord: "active s' = active s @ rev (remdups (rev (filter (\<lambda>y. y \<notin> set (active s)) ?ns)))"
    using s'(3) r(2) by simp
  have "set (filter (\<lambda>y. y \<notin> set (active s)) ?ns) = set ?ns - set (active s)" by auto
  then have "length (rev (remdups (rev (filter (\<lambda>y. y \<notin> set (active s)) ?ns))))
      = card (set ?ns - set (active s))"
    by (simp add: length_remdups_card_conv)
  then have "length (active s') = length (active s) + card (set ?ns - set (active s))"
    using ord by simp
  then have sz: "size_sas s' = size_sas s + card (set ?ns - set (active s))"
    using s'(2) assms(1) by (simp add: size_sas_invar)
  have mem: "\<forall>y. contains s' y = Inr (y \<in> set (active s) \<or> y \<in> set ?ns)"
    using s'(2,4) r(2) by (simp add: contains_invar)
  show ?thesis using run len ord sz mem by blast
qed

theorem init_from_adj_inserts_in_order_witness:
  "invar construct_default \<and>
   invar \<lparr>elements = [4, - 1, - 1], first = 0, last_idx = 0\<rparr> \<and>
   (0::int) < int (length [[1, 2, 3], [0], [0], [0 :: int]]) \<and>
   length [[1, 2, 3], [0], [0], [0 :: int]] < 2 ^ 32 \<and>
   (0::int) < int (length [[2, 2, 4, 1], [0], [0], [0 :: int]]) \<and>
   length [[2, 2, 4, 1], [0], [0], [0 :: int]] < 2 ^ 32 \<and>
   (\<exists>s'. init_from_adj construct_default [[1, 2, 3], [0], [0], [0]] 0 = Inr s' \<and>
         length (elements s') = 4 \<and> active s' = [1, 2, 3] \<and> size_sas s' = 3 \<and>
         contains s' 1 = Inr True \<and> contains s' 2 = Inr True \<and> contains s' 3 = Inr True \<and>
         contains s' 0 = Inr False) \<and>
   (\<exists>s'. init_from_adj \<lparr>elements = [4, - 1, - 1], first = 0, last_idx = 0\<rparr>
           [[2, 2, 4, 1], [0], [0], [0]] 0 = Inr s' \<and>
         length (elements s') = 4 \<and> active s' = [4, 2, 1] \<and> size_sas s' = 3)"
proof -
  let ?adj = "[[1, 2, 3], [0], [0], [0 :: int]]"
  let ?adj2 = "[[2, 2, 4, 1], [0], [0], [0 :: int]]"
  let ?t = "\<lparr>elements = [4, - 1, - 1], first = 0, last_idx = 0\<rparr>"
  have a0: "active construct_default = []" by (simp add: construct_default_def active_def)
  have a: "invar construct_default" by (rule invar_construct_default)
  have z0: "size_sas construct_default = 0" by (simp add: construct_default_def size_sas_def)
  have b: "(0::int) \<le> 0" by simp
  have c: "(0::int) < int (length ?adj)" by simp
  have d: "length ?adj < 2 ^ 32" by simp
  have e: "last_idx construct_default + 1
      + int (card (set (?adj ! nat 0) - set (active construct_default))) \<le> int (length ?adj)"
    by (simp add: a0) (simp add: construct_default_def)
  have f: "last_idx construct_default
      + int (card (set (?adj ! nat 0) - set (active construct_default))) \<le> int_max"
    by (simp add: a0) (simp add: construct_default_def int_max_def)
  from init_from_adj_inserts_in_order [OF a b c d e f]
  obtain s' where s': "init_from_adj construct_default ?adj 0 = Inr s'"
    "length (elements s') = length ?adj"
    "active s' = active construct_default @
       rev (remdups (rev (filter (\<lambda>y. y \<notin> set (active construct_default)) (?adj ! nat 0))))"
    "size_sas s' = size_sas construct_default
       + card (set (?adj ! nat 0) - set (active construct_default))"
    "\<forall>y. contains s' y = Inr (y \<in> set (active construct_default) \<or> y \<in> set (?adj ! nat 0))"
    by blast
  have s1: "length (elements s') = 4" "active s' = [1, 2, 3]" "size_sas s' = 3"
    using s'(2,3,4) by (simp_all add: a0 z0)
  have s2: "contains s' 1 = Inr True" "contains s' 2 = Inr True" "contains s' 3 = Inr True"
    "contains s' 0 = Inr False"
    using s'(5) by (simp_all add: a0)
  have at: "active ?t = [4]" by (simp add: active_def)
  have zt: "size_sas ?t = 1" by (simp add: size_sas_def)
  have a': "invar ?t" by (simp add: invar_def at int_max_def)
  have c': "(0::int) < int (length ?adj2)" by simp
  have d': "length ?adj2 < 2 ^ 32" by simp
  have "set (?adj2 ! nat 0) - set (active ?t) = {2, 1}" by (auto simp: at)
  then have e': "last_idx ?t + 1 + int (card (set (?adj2 ! nat 0) - set (active ?t)))
      \<le> int (length ?adj2)"
    by simp
  have k: "card (set (?adj2 ! nat 0) - set (active ?t)) = 2"
    using \<open>set (?adj2 ! nat 0) - set (active ?t) = {2, 1}\<close> by simp
  have f': "last_idx ?t + int (card (set (?adj2 ! nat 0) - set (active ?t))) \<le> int_max"
    unfolding k by (simp add: int_max_def)
  from init_from_adj_inserts_in_order [OF a' b c' d' e' f']
  obtain t' where t': "init_from_adj ?t ?adj2 0 = Inr t'"
    "length (elements t') = length ?adj2"
    "active t' = active ?t @
       rev (remdups (rev (filter (\<lambda>y. y \<notin> set (active ?t)) (?adj2 ! nat 0))))"
    "size_sas t' = size_sas ?t + card (set (?adj2 ! nat 0) - set (active ?t))"
    by blast
  have t1: "length (elements t') = 4" "active t' = [4, 2, 1]"
    using t'(2,3) by (simp_all add: at)
  have t2: "size_sas t' = 3" using t'(4) k zt by simp
  show ?thesis using a a' c d c' d' s'(1) s1 s2 t'(1) t1 t2 by blast
qed

text \<open>
  Claim C8. For every capacity \<open>c\<close>, a set built by the constructor with \<open>c\<close>,
  built by the default constructor, or reset by \<^verbatim>\<open>init(c)\<close> from any state \<open>s\<close>,
  has \<^verbatim>\<open>size() == 0\<close> and \<^verbatim>\<open>empty() == true\<close>.
\<close>

theorem fresh_set_is_empty:
  "size_sas (construct c) = 0 \<and> empty_sas (construct c) \<and>
   size_sas construct_default = 0 \<and> empty_sas construct_default \<and>
   size_sas (init s c) = 0 \<and> empty_sas (init s c)"
  by (simp add: size_sas_def empty_sas_def construct_def construct_default_def init_def)

text \<open>
  Claim C9. \<^verbatim>\<open>init_from_adj\<close> calls \<^verbatim>\<open>resize\<close>, not \<^verbatim>\<open>init\<close>, so the cursors stay.
  Let \<open>s\<close> satisfy the invariant, \<open>node\<close> be a row of \<open>adj\<close>, and the vector, once
  resized to \<^verbatim>\<open>adj.size()\<close>, have enough slots for the members of \<open>s\<close> together with
  the neighbours of \<open>node\<close> that are not members yet, the last of them at an index
  of at most \<^verbatim>\<open>INT_MAX\<close>. Then the call returns, \<open>first\<close>
  is unchanged and \<open>last\<close> has not gone down, every former member is still a member,
  and the members are exactly the former members and the neighbours of \<open>node\<close>.
\<close>

theorem init_from_adj_keeps_members:
  assumes "invar s" and "0 \<le> node" and "node < int (length adj)"
    and "last_idx s + 1 + int (card (set (adj ! nat node) - set (active s)))
           \<le> int (length (elements (resize s (word_of_nat (length adj)))))"
    and "last_idx s + int (card (set (adj ! nat node) - set (active s))) \<le> int_max"
  shows "\<exists>s'. init_from_adj s adj node = Inr s' \<and>
           first s' = first s \<and> last_idx s \<le> last_idx s' \<and>
           (\<forall>y\<in>set (active s). contains s' y = Inr True) \<and>
           set (active s') = set (active s) \<union> set (adj ! nat node) \<and>
           (\<forall>y. contains s' y = Inr (y \<in> set (active s) \<or> y \<in> set (adj ! nat node)))"
proof -
  let ?w = "word_of_nat (length adj) :: 32 word"
  let ?r = "resize s ?w"
  have len: "length (elements ?r) = unat ?w"
    by (simp add: resize_def length_vec_resize)
  have fit: "last_idx s + 1 \<le> int (unat ?w)" using assms(4) len by linarith
  note r = resize_keeps_active [OF assms(1) fit]
  have room: "last_idx ?r + 1 + int (card (set (adj ! nat node) - set (active ?r)))
          \<le> int (length (elements ?r))"
    using assms(4) r(2,5) by simp
  have small: "last_idx ?r + int (card (set (adj ! nat node) - set (active ?r))) \<le> int_max"
    using assms(5) r(2,5) by simp
  from insert_all_members [OF r(1) room small]
  obtain s' where s': "insert_all ?r (adj ! nat node) = Inr s'" "invar s'"
    "set (active s') = set (active ?r) \<union> set (adj ! nat node)" "first s' = first ?r"
    "last_idx s' = last_idx ?r + int (card (set (adj ! nat node) - set (active ?r)))"
    by blast
  have "init_from_adj s adj node = Inr s'"
    using s'(1) assms(2,3) by (simp add: init_from_adj_def)
  moreover have "set (active s') = set (active s) \<union> set (adj ! nat node)"
    using s'(3) r(2) by simp
  moreover have "\<forall>y. contains s' y = Inr (y \<in> set (active s) \<or> y \<in> set (adj ! nat node))"
    using s'(2,3) r(2) by (simp add: contains_invar)
  moreover have "first s' = first s" "last_idx s \<le> last_idx s'"
    using s'(4,5) r(4,5) by simp_all
  ultimately show ?thesis by auto
qed

theorem init_from_adj_keeps_members_witness:
  "invar \<lparr>elements = [9, 1, - 1], first = 0, last_idx = 1\<rparr> \<and> (0::int) \<le> 0 \<and>
   (0::int) < int (length [[1, 2, 3], [0], [0], [0 :: int]]) \<and>
   (\<exists>s'. init_from_adj \<lparr>elements = [9, 1, - 1], first = 0, last_idx = 1\<rparr>
            [[1, 2, 3], [0], [0], [0]] 0 = Inr s' \<and>
         contains s' 9 = Inr True \<and> contains s' 1 = Inr True \<and>
         set (active s') = {9, 1, 2, 3})"
proof -
  let ?s = "\<lparr>elements = [9, 1, - 1], first = 0, last_idx = 1\<rparr>"
  let ?adj = "[[1, 2, 3], [0], [0], [0 :: int]]"
  have act: "active ?s = [9, 1]" by (simp add: active_def)
  have a: "invar ?s" by (simp add: invar_def act int_max_def)
  have b: "(0::int) \<le> 0" by simp
  have c: "(0::int) < int (length ?adj)" by simp
  have "set (?adj ! nat 0) - set (active ?s) = {2, 3}" by (auto simp: act)
  moreover have "length (elements (resize ?s (word_of_nat (length ?adj)))) = 4"
    by (simp add: resize_def length_vec_resize)
  ultimately have e: "last_idx ?s + 1 + int (card (set (?adj ! nat 0) - set (active ?s)))
      \<le> int (length (elements (resize ?s (word_of_nat (length ?adj)))))"
    by simp
  have "set (?adj ! nat 0) - set (active ?s) = {2, 3}" by (auto simp: act)
  then have f: "last_idx ?s + int (card (set (?adj ! nat 0) - set (active ?s))) \<le> int_max"
    by (simp add: int_max_def)
  from init_from_adj_keeps_members [OF a b c e f]
  obtain s' where s': "init_from_adj ?s ?adj 0 = Inr s'"
    "\<forall>y\<in>set (active ?s). contains s' y = Inr True"
    "set (active s') = set (active ?s) \<union> set (?adj ! nat 0)"
    by blast
  have "contains s' 9 = Inr True" "contains s' 1 = Inr True" using s'(2) act by simp_all
  moreover have "set (active s') = {9, 1, 2, 3}" using s'(3) act by auto
  ultimately show ?thesis using a c s'(1) by blast
qed

text \<open>
  Claim C10. Let \<open>s\<close> satisfy the invariant and hold \<open>x\<close> in slot \<open>i\<close> of the active
  range. Then \<^verbatim>\<open>remove(x)\<close> returns a state in which slot \<open>i\<close> holds what slot
  \<open>last\<close> held, the old slot \<open>last\<close> holds \<open>x\<close>, \<open>last\<close> is one less (so \<open>x\<close> sits
  just behind the active range), \<open>first\<close> and every other slot are as before, and the
  old active range is, as a multiset, the new one plus \<open>x\<close>.
\<close>

theorem remove_swaps_with_last:
  assumes "invar s" and "first s \<le> i" and "i \<le> last_idx s" and "elements s ! nat i = x"
  shows "\<exists>s'. remove_sas s x = Inr s' \<and>
           first s' = first s \<and> last_idx s' = last_idx s - 1 \<and>
           length (elements s') = length (elements s) \<and>
           elements s' ! nat i = elements s ! nat (last_idx s) \<and>
           elements s' ! nat (last_idx s) = x \<and>
           (\<forall>j. j < length (elements s) \<and> j \<noteq> nat i \<and> j \<noteq> nat (last_idx s) \<longrightarrow>
                elements s' ! j = elements s ! j) \<and>
           mset (active s) = mset (active s') + {#x#}"
proof -
  define s' where "s' = s\<lparr>elements := (elements s)[nat i := elements s ! nat (last_idx s),
                                                   nat (last_idx s) := x],
                         last_idx := last_idx s - 1\<rparr>"
  have b: "0 \<le> first s" "last_idx s < int (length (elements s))"
    using assms(1) by (simp_all add: invar_def)
  then have inb: "nat i < length (elements s)" "nat (last_idx s) < length (elements s)"
    using assms(2,3) by linarith+
  have rem: "remove_sas s x = Inr s'"
    unfolding s'_def using assms by (rule remove_sas_at)
  have m: "mset (active s) = mset (active s') + {#x#}"
    unfolding s'_def using remove_sas_effect(1) [OF assms] by simp
  have at_i: "elements s' ! nat i = elements s ! nat (last_idx s)"
  proof (cases "nat i = nat (last_idx s)")
    case True
    then show ?thesis using inb assms(4) by (simp add: s'_def)
  next
    case False
    then show ?thesis using inb by (simp add: s'_def)
  qed
  have at_l: "elements s' ! nat (last_idx s) = x" using inb by (simp add: s'_def)
  have rest: "\<forall>j. j < length (elements s) \<and> j \<noteq> nat i \<and> j \<noteq> nat (last_idx s) \<longrightarrow>
                elements s' ! j = elements s ! j"
    by (simp add: s'_def)
  have "first s' = first s" "last_idx s' = last_idx s - 1"
    "length (elements s') = length (elements s)"
    by (simp_all add: s'_def)
  with rem m at_i at_l rest show ?thesis by blast
qed

theorem remove_swaps_with_last_witness:
  "invar \<lparr>elements = [5, 7, 9, - 1], first = 0, last_idx = 2\<rparr> \<and>
   first \<lparr>elements = [5, 7, 9, - 1], first = 0, last_idx = 2\<rparr> \<le> 0 \<and>
   0 \<le> last_idx \<lparr>elements = [5, 7, 9, - 1], first = 0, last_idx = 2\<rparr> \<and>
   elements \<lparr>elements = [5, 7, 9, - 1], first = 0, last_idx = 2\<rparr> ! nat 0 = 5 \<and>
   remove_sas \<lparr>elements = [5, 7, 9, - 1], first = 0, last_idx = 2\<rparr> 5
     = Inr \<lparr>elements = [9, 7, 5, - 1], first = 0, last_idx = 1\<rparr> \<and>
   (\<exists>s'. remove_sas \<lparr>elements = [5, 7, 9, - 1], first = 0, last_idx = 2\<rparr> 5 = Inr s' \<and>
         elements s' ! nat 0 = 9 \<and> elements s' ! nat 2 = 5 \<and>
         mset [5, 7, 9] = mset (active s') + {#5#})"
proof -
  let ?s = "\<lparr>elements = [5, 7, 9, - 1], first = 0, last_idx = 2\<rparr>"
  have act: "active ?s = [5, 7, 9]" by (simp add: active_def)
  have a: "invar ?s" by (simp add: invar_def act int_max_def)
  have b: "first ?s \<le> 0" by simp
  have c: "0 \<le> last_idx ?s" by simp
  have d: "elements ?s ! nat 0 = 5" by simp
  have r: "remove_sas ?s 5 = Inr \<lparr>elements = [9, 7, 5, - 1], first = 0, last_idx = 1\<rparr>"
    by code_simp
  from remove_swaps_with_last [OF a b c d]
  obtain s' where s': "remove_sas ?s 5 = Inr s'"
    "elements s' ! nat 0 = elements ?s ! nat (last_idx ?s)"
    "elements s' ! nat (last_idx ?s) = 5"
    "mset (active ?s) = mset (active s') + {#5#}"
    by blast
  have "elements s' ! nat 0 = 9" "elements s' ! nat 2 = 5" using s'(2,3) by simp_all
  moreover have "mset [5, 7, 9] = mset (active s') + {#5#}" using s'(4) act by simp
  ultimately show ?thesis using a b c d r s'(1) by blast
qed

end
